theory Spec2Isabelle
  imports Main "HOL-Library.Word" "HOL-Library.Signed_Division"
begin

section \<open>Machine integers and buffers of \<^verbatim>\<open>src/main.c\<close>\<close>

text \<open>
  The watch is a 32-bit ARM target: \<^verbatim>\<open>int\<close> is a 32-bit two's complement integer and
  \<^verbatim>\<open>size_t\<close> a 32-bit unsigned one. Both are \<open>32 word\<close>; comparisons of \<^verbatim>\<open>int\<close>
  values are the signed ones (\<open><s\<close>, \<open>\<le>s\<close>), and arithmetic wraps around. (The C
  standard leaves signed overflow undefined; the wrap-around is what the target
  computes. No statement proved below for widths up to 31 depends on it: there no
  operation overflows.)
\<close>

type_synonym c_int = "32 word"
type_synonym size_t = "32 word"

definition HOUR_BINARY_LENGTH :: nat where
  "HOUR_BINARY_LENGTH = 5"

definition MINUTE_BINARY_LENGTH :: nat where
  "MINUTE_BINARY_LENGTH = 6"

definition MONTH_BINARY_LENGTH :: nat where
  "MONTH_BINARY_LENGTH = 4"

definition DAY_BINARY_LENGTH :: nat where
  "DAY_BINARY_LENGTH = 6"

text \<open>
  The fields of \<^verbatim>\<open>struct tm\<close> that the program reads.
\<close>

record tm =
  tm_min :: c_int
  tm_hour :: c_int
  tm_mday :: c_int
  tm_mon :: c_int

text \<open>
  The four static output buffers. Each is declared with its \<^verbatim>\<open>..._BINARY_LENGTH + 1\<close>
  bytes; \<open>buffers_allocated\<close> says that the lists have these lengths.
\<close>

record buffers =
  hour_binary_buffer :: "char list"
  minute_binary_buffer :: "char list"
  month_binary_buffer :: "char list"
  day_binary_buffer :: "char list"

definition buffers_allocated :: "buffers \<Rightarrow> bool" where
  "buffers_allocated s \<longleftrightarrow>
     length (hour_binary_buffer s) = HOUR_BINARY_LENGTH + 1 \<and>
     length (minute_binary_buffer s) = MINUTE_BINARY_LENGTH + 1 \<and>
     length (month_binary_buffer s) = MONTH_BINARY_LENGTH + 1 \<and>
     length (day_binary_buffer s) = DAY_BINARY_LENGTH + 1"

text \<open>
  The assignment \<^verbatim>\<open>buffer[i] = c\<close> with an \<^verbatim>\<open>int\<close> index. A store outside the buffer
  is an error of the model (\<open>None\<close>), so that "never writes past the end" is the
  statement that the result is \<open>Some\<close>.
\<close>

definition buffer_store :: "char list \<Rightarrow> c_int \<Rightarrow> char \<Rightarrow> char list option" where
  "buffer_store buffer i c =
     (if 0 \<le> sint i \<and> nat (sint i) < length buffer
      then Some (buffer[nat (sint i) := c]) else None)"

text \<open>
  The buffers have static storage: when the program starts they hold zero bytes.
\<close>

definition initial_buffers :: buffers where
  "initial_buffers =
     \<lparr>hour_binary_buffer = replicate (HOUR_BINARY_LENGTH + 1) (CHR 0x00),
      minute_binary_buffer = replicate (MINUTE_BINARY_LENGTH + 1) (CHR 0x00),
      month_binary_buffer = replicate (MONTH_BINARY_LENGTH + 1) (CHR 0x00),
      day_binary_buffer = replicate (DAY_BINARY_LENGTH + 1) (CHR 0x00)\<rparr>"

section \<open>The binary time functions\<close>

text \<open>
  \<^verbatim>\<open>hours % 12\<close>: the remainder of C, truncating towards zero (the sign of the
  dividend), on the signed values.
\<close>

definition c_rem :: "c_int \<Rightarrow> c_int \<Rightarrow> c_int" where
  "c_rem a b = word_of_int (sint a smod sint b)"

text \<open>
  \<^verbatim>\<open>tm_get_hours\<close>. The device setting \<^verbatim>\<open>clock_is_24h_style()\<close> of the SDK is a
  parameter.
\<close>

definition tm_get_hours :: "bool \<Rightarrow> tm \<Rightarrow> c_int" where
  "tm_get_hours clock_is_24h_style tick_time =
     (let hours = tm_hour tick_time
      in if clock_is_24h_style then hours
         else (if c_rem hours 12 = 0 then 12 else c_rem hours 12))"

definition tm_get_months :: "tm \<Rightarrow> c_int" where
  "tm_get_months tick_time = tm_mon tick_time + 1"

lemma sint_range32: "- 2147483648 \<le> sint (x::c_int) \<and> sint x < 2147483648"
  using sint_ge [of x] sint_lt [of x] by simp

lemma sint_succ:
  assumes "i <s (e::c_int)"
  shows "sint (i + 1) = sint i + 1"
proof -
  have "sint i < sint e" using assms by (simp add: word_sless_alt)
  moreover have "sint e < 2147483648" using sint_range32 by blast
  moreover have "- 2147483648 \<le> sint i" using sint_range32 by blast
  ultimately have "signed_take_bit 31 (sint i + 1) = sint i + 1"
    by (intro signed_take_bit_int_eq_self) simp_all
  then show ?thesis by (simp add: sint_word_ariths)
qed

text \<open>
  \<^verbatim>\<open>power\<close>: the loop \<^verbatim>\<open>for (int i = 0; i < expont; i++) p *= base;\<close> with its
  counter \<open>i\<close> and accumulator \<open>p\<close>.
\<close>

function power_loop :: "c_int \<Rightarrow> c_int \<Rightarrow> c_int \<Rightarrow> c_int \<Rightarrow> c_int" where
  "power_loop base expont i p =
     (if i <s expont then power_loop base expont (i + 1) (p * base) else p)"
  by pat_completeness auto
termination
  by (relation "measure (\<lambda>(base, expont, i, p). nat (sint expont - sint i))")
    (simp_all add: sint_succ word_sless_alt)

definition power :: "c_int \<Rightarrow> c_int \<Rightarrow> c_int" where
  "power base expont = power_loop base expont 0 1"

text \<open>
  \<^verbatim>\<open>format_as_binary\<close>: the loop over the positions \<open>i < end\<close>, carrying the buffer and
  \<open>store\<close>, then the terminator at \<open>buffer[end]\<close>. \<open>end\<close> is \<^verbatim>\<open>(int)length - 1\<close>.
\<close>

function format_loop :: "char list \<Rightarrow> c_int \<Rightarrow> c_int \<Rightarrow> c_int \<Rightarrow> char list option" where
  "format_loop buffer end i store =
     (if i <s end then
        (if power 2 (end - 1 - i) \<le>s store
         then (case buffer_store buffer i (CHR ''1'') of
                 None \<Rightarrow> None
               | Some buffer' \<Rightarrow>
                   format_loop buffer' end (i + 1) (store - power 2 (end - 1 - i)))
         else (case buffer_store buffer i (CHR ''0'') of
                 None \<Rightarrow> None
               | Some buffer' \<Rightarrow> format_loop buffer' end (i + 1) store))
      else Some buffer)"
  by pat_completeness auto
termination
  by (relation "measure (\<lambda>(buffer, end, i, store). nat (sint end - sint i))")
    (simp_all add: sint_succ word_sless_alt)

definition format_as_binary :: "char list \<Rightarrow> size_t \<Rightarrow> c_int \<Rightarrow> char list option" where
  "format_as_binary buffer len value =
     (let store = value; end = len - 1
      in case format_loop buffer end 0 store of
           None \<Rightarrow> None
         | Some buffer' \<Rightarrow> buffer_store buffer' end (CHR 0x00))"

text \<open>
  \<^verbatim>\<open>display_time\<close>: the four calls of \<^verbatim>\<open>format_as_binary\<close> on the static buffers, each
  with \<^verbatim>\<open>sizeof\<close> of its buffer. The calls that follow (\<^verbatim>\<open>debug_time\<close>,
  \<^verbatim>\<open>text_layer_set_text\<close>) read the buffers and leave them unchanged.
\<close>

definition display_time :: "bool \<Rightarrow> tm \<Rightarrow> buffers \<Rightarrow> buffers option" where
  "display_time clock_is_24h_style tick_time s =
     (case format_as_binary (hour_binary_buffer s) (of_nat (HOUR_BINARY_LENGTH + 1))
             (tm_get_hours clock_is_24h_style tick_time) of
        None \<Rightarrow> None
      | Some hb \<Rightarrow>
     (case format_as_binary (minute_binary_buffer s) (of_nat (MINUTE_BINARY_LENGTH + 1))
             (tm_min tick_time) of
        None \<Rightarrow> None
      | Some mb \<Rightarrow>
     (case format_as_binary (month_binary_buffer s) (of_nat (MONTH_BINARY_LENGTH + 1))
             (tm_get_months tick_time) of
        None \<Rightarrow> None
      | Some ob \<Rightarrow>
     (case format_as_binary (day_binary_buffer s) (of_nat (DAY_BINARY_LENGTH + 1))
             (tm_mday tick_time) of
        None \<Rightarrow> None
      | Some db \<Rightarrow>
          Some \<lparr>hour_binary_buffer = hb, minute_binary_buffer = mb,
                month_binary_buffer = ob, day_binary_buffer = db\<rparr>))))"

section \<open>Reading the output\<close>

text \<open>
  The C string that a buffer holds: the characters before the first NUL. This is what
  the text layers and the \<^verbatim>\<open>%s\<close> of the log read.
\<close>

definition c_string :: "char list \<Rightarrow> char list" where
  "c_string buffer = takeWhile (\<lambda>c. c \<noteq> CHR 0x00) buffer"

text \<open>
  The standard reading of a digit string as a binary number, most significant bit
  first.
\<close>

definition decode_binary :: "char list \<Rightarrow> nat" where
  "decode_binary ds = foldl (\<lambda>acc c. 2 * acc + (if c = CHR ''1'' then 1 else 0)) 0 ds"

section \<open>The compare-and-subtract scan on unbounded integers\<close>

text \<open>
  \<open>greedy_bits k s\<close> is the digit sequence that the loop of \<^verbatim>\<open>format_as_binary\<close>
  writes for its last \<open>k\<close> positions from the store \<open>s\<close>, computed on unbounded
  integers. It is a device of the proofs: \<open>format_loop_greedy\<close> shows that the loop on
  32-bit integers writes exactly these digits whenever the width is at most 31.
\<close>

fun greedy_bits :: "nat \<Rightarrow> int \<Rightarrow> char list" where
  "greedy_bits 0 s = []"
| "greedy_bits (Suc k) s =
     (if 2 ^ k \<le> s then CHR ''1'' # greedy_bits k (s - 2 ^ k)
      else CHR ''0'' # greedy_bits k s)"

section \<open>Word arithmetic of the two loops\<close>

text \<open>
  \<^verbatim>\<open>power\<close> computes the power of the base in \<^verbatim>\<open>int\<close> arithmetic, for every exponent
  (a negative exponent gives 1, as the loop does not run).
\<close>

lemma power_loop_eq:
  "sint i \<le> sint expont \<Longrightarrow>
   power_loop base expont i p = p * base ^ nat (sint expont - sint i)"
proof (induction base expont i p rule: power_loop.induct)
  case (1 base expont i p)
  show ?case
  proof (cases "i <s expont")
    case True
    then have s: "sint (i + 1) = sint i + 1" by (rule sint_succ)
    from True have lt: "sint i < sint expont" by (simp add: word_sless_alt)
    have n: "nat (sint expont - sint i) = Suc (nat (sint expont - (sint i + 1)))"
      using lt by simp
    have "power_loop base expont (i + 1) (p * base) =
          p * base * base ^ nat (sint expont - sint (i + 1))"
      using "1.IH" [OF True] lt s by simp
    then show ?thesis
      using True by (simp add: s n del: power_loop.simps) (simp add: power_loop.simps [of base expont i p])
  next
    case False
    with "1.prems" have "sint expont = sint i" by (simp add: word_sless_alt)
    then show ?thesis using False by simp
  qed
qed

lemma power_eq: "power base expont = base ^ nat (sint expont)"
proof (cases "0 \<le> sint expont")
  case True
  then show ?thesis by (simp add: power_def power_loop_eq del: power_loop.simps)
next
  case False
  then have "\<not> 0 <s expont" by (simp add: word_sless_alt)
  then show ?thesis using False by (simp add: power_def)
qed

lemma sint_two_power: "k \<le> 30 \<Longrightarrow> sint ((2::c_int) ^ k) = 2 ^ k"
proof -
  assume k: "k \<le> 30"
  have le: "(2::int) ^ k \<le> 2 ^ 30" using k by (intro power_increasing) simp_all
  have ge: "(0::int) \<le> 2 ^ k" by simp
  have "- (2 ^ 31) \<le> (0::int)" by simp
  then have lo: "- (2 ^ 31) \<le> (2::int) ^ k" using ge by (rule order_trans)
  have hi: "(2::int) ^ k < 2 ^ 31" using le by simp
  have "signed_take_bit 31 ((2::int) ^ k) = 2 ^ k"
    using lo hi by (rule signed_take_bit_int_eq_self)
  moreover have "(2::c_int) ^ k = word_of_int (2 ^ k)" by simp
  ultimately show ?thesis by (simp only: sint_sbintrunc') simp
qed

lemma sint_of_nat32: "n < 2147483648 \<Longrightarrow> sint (of_nat n :: c_int) = int n"
proof -
  assume n: "n < 2147483648"
  then have "signed_take_bit 31 (int n) = int n"
    by (intro signed_take_bit_int_eq_self) simp_all
  moreover have "(of_nat n :: c_int) = word_of_int (int n)" by simp
  ultimately show ?thesis by (simp only: sint_sbintrunc') simp
qed

declare power_loop.simps [simp del]
declare format_loop.simps [simp del]

section \<open>The loop of the encoder, position by position\<close>

lemma sless_of_nat32:
  "i < 2147483648 \<Longrightarrow> w < 2147483648 \<Longrightarrow>
   ((of_nat i :: c_int) <s of_nat w) = (i < w)"
  by (simp add: word_sless_alt sint_of_nat32)

lemma buffer_store_of_nat:
  "i < length buffer \<Longrightarrow> i < 2147483648 \<Longrightarrow>
   buffer_store buffer (of_nat i) c = Some (buffer[i := c])"
  by (simp add: buffer_store_def sint_of_nat32)

lemma end_minus_of_nat:
  "i < w \<Longrightarrow> (of_nat w :: c_int) - 1 - of_nat i = of_nat (w - 1 - i)"
  by simp

lemma format_loop_step:
  assumes "i < w" "w < 2147483648" "w \<le> length buffer"
  shows "format_loop buffer (of_nat w) (of_nat i) store =
     (if (2::c_int) ^ (w - 1 - i) \<le>s store
      then format_loop (buffer[i := CHR ''1'']) (of_nat w) (of_nat (Suc i))
             (store - 2 ^ (w - 1 - i))
      else format_loop (buffer[i := CHR ''0'']) (of_nat w) (of_nat (Suc i)) store)"
proof -
  have lt: "(of_nat i :: c_int) <s of_nat w"
    using assms by (simp add: sless_of_nat32)
  have e: "(of_nat w :: c_int) - 1 - of_nat i = of_nat (w - 1 - i)"
    using assms(1) by (rule end_minus_of_nat)
  have "w - 1 - i < 2147483648" using assms by simp
  then have p: "power 2 (of_nat (w - 1 - i)) = (2::c_int) ^ (w - 1 - i)"
    by (simp add: power_eq sint_of_nat32)
  have st: "buffer_store buffer (of_nat i) c = Some (buffer[i := c])" for c
    using assms by (intro buffer_store_of_nat) simp_all
  have su: "(of_nat i :: c_int) + 1 = of_nat (Suc i)" by simp
  show ?thesis
    by (subst format_loop.simps) (simp only: lt e p st su if_True option.case)
qed

lemma format_loop_stop:
  "w < 2147483648 \<Longrightarrow> format_loop buffer (of_nat w) (of_nat w) store = Some buffer"
  by (subst format_loop.simps) (simp add: word_sless_alt)

lemma format_loop_digits:
  "i + k = w \<Longrightarrow> w < 2147483648 \<Longrightarrow> w \<le> length buffer \<Longrightarrow>
   \<exists>ds. format_loop buffer (of_nat w) (of_nat i) store =
          Some (take i buffer @ ds @ drop w buffer) \<and>
        length ds = k \<and> set ds \<subseteq> {CHR ''0'', CHR ''1''}"
proof (induction k arbitrary: i buffer store)
  case 0
  then show ?case by (simp add: format_loop_stop)
next
  case (Suc k)
  then have iw: "i < w" by simp
  have il: "i < length buffer" using Suc.prems by simp
  have step: "\<exists>ds. format_loop (buffer[i := c]) (of_nat w) (of_nat (Suc i)) st =
          Some (take i buffer @ ds @ drop w buffer) \<and>
        length ds = Suc k \<and> set ds \<subseteq> {CHR ''0'', CHR ''1''}"
    if c: "c \<in> {CHR ''0'', CHR ''1''}" for c st
  proof -
    have "Suc i + k = w" using Suc.prems by simp
    moreover have "w \<le> length (buffer[i := c])" using Suc.prems by simp
    ultimately obtain ds where ds:
      "format_loop (buffer[i := c]) (of_nat w) (of_nat (Suc i)) st =
         Some (take (Suc i) (buffer[i := c]) @ ds @ drop w (buffer[i := c]))"
      "length ds = k" "set ds \<subseteq> {CHR ''0'', CHR ''1''}"
      using Suc.IH [of "Suc i" "buffer[i := c]" st] Suc.prems(2) by blast
    have tk: "take (Suc i) (buffer[i := c]) = take i buffer @ [c]"
      using il by (simp add: take_Suc_conv_app_nth)
    have dr: "drop w (buffer[i := c]) = drop w buffer" using iw by simp
    have "format_loop (buffer[i := c]) (of_nat w) (of_nat (Suc i)) st =
         Some (take i buffer @ (c # ds) @ drop w buffer)"
      using ds(1) by (simp add: tk dr)
    moreover have "length (c # ds) = Suc k" using ds(2) by simp
    moreover have "set (c # ds) \<subseteq> {CHR ''0'', CHR ''1''}" using ds(3) c by auto
    ultimately show ?thesis by blast
  qed
  note eq = format_loop_step [OF iw Suc.prems(2,3), of store]
  show ?case
  proof (cases "(2::c_int) ^ (w - 1 - i) \<le>s store")
    case True
    with step [of "CHR ''1''" "store - 2 ^ (w - 1 - i)"] show ?thesis
      by (simp only: eq if_True) simp
  next
    case False
    with step [of "CHR ''0''" store] show ?thesis
      by (simp only: eq if_False) simp
  qed
qed

lemma format_loop_greedy:
  "i + k = w \<Longrightarrow> w \<le> 31 \<Longrightarrow> w \<le> length buffer \<Longrightarrow>
   format_loop buffer (of_nat w) (of_nat i) store =
     Some (take i buffer @ greedy_bits k (sint store) @ drop w buffer)"
proof (induction k arbitrary: i buffer store)
  case 0
  then show ?case by (simp add: format_loop_stop)
next
  case (Suc k)
  then have iw: "i < w" and w: "w < 2147483648" and k: "w - 1 - i = k" and k30: "k \<le> 30"
    by simp_all
  have il: "i < length buffer" using Suc.prems by simp
  have tk: "take (Suc i) (buffer[i := c]) = take i buffer @ [c]" for c
    using il by (simp add: take_Suc_conv_app_nth)
  have dr: "drop w (buffer[i := c]) = drop w buffer" for c using iw by simp
  have ih: "format_loop (buffer[i := c]) (of_nat w) (of_nat (Suc i)) st =
     Some (take i buffer @ c # greedy_bits k (sint st) @ drop w buffer)" for c st
    using Suc.IH [of "Suc i" "buffer[i := c]" st] Suc.prems by (simp add: tk dr)
  have cmp: "((2::c_int) ^ k \<le>s store) = (2 ^ k \<le> sint store)"
    by (simp add: word_sle_eq sint_two_power [OF k30])
  have sub: "sint (store - 2 ^ k) = sint store - 2 ^ k" if "2 ^ k \<le> sint store"
  proof -
    have p: "(0::int) \<le> 2 ^ k" by simp
    have r: "sint store < 2147483648" using sint_range32 [of store] by blast
    have lo: "- (2 ^ 31) \<le> sint store - 2 ^ k" using that by simp
    have "sint store - 2 ^ k < 2147483648" using p r by linarith
    then have hi: "sint store - 2 ^ k < 2 ^ 31" by simp
    have "signed_take_bit 31 (sint store - 2 ^ k) = sint store - 2 ^ k"
      using lo hi by (rule signed_take_bit_int_eq_self)
    then show ?thesis by (simp add: sint_word_ariths sint_two_power [OF k30])
  qed
  have step: "format_loop buffer (of_nat w) (of_nat i) store =
     (if (2::c_int) ^ k \<le>s store
      then format_loop (buffer[i := CHR ''1'']) (of_nat w) (of_nat (Suc i)) (store - 2 ^ k)
      else format_loop (buffer[i := CHR ''0'']) (of_nat w) (of_nat (Suc i)) store)"
    using format_loop_step [OF iw w Suc.prems(3), of store] by (simp only: k)
  show ?case
  proof (cases "2 ^ k \<le> sint store")
    case True
    then show ?thesis by (simp only: step ih cmp sub) simp
  next
    case False
    then show ?thesis by (simp only: step ih cmp) simp
  qed
qed


lemma length_greedy_bits: "length (greedy_bits k s) = k"
  by (induction k arbitrary: s) simp_all

lemma set_greedy_bits: "set (greedy_bits k s) \<subseteq> {CHR ''0'', CHR ''1''}"
  by (induction k arbitrary: s) auto

lemma c_string_digits:
  "set ds \<subseteq> {CHR ''0'', CHR ''1''} \<Longrightarrow> c_string (ds @ CHR 0x00 # rest) = ds"
  unfolding c_string_def by (induction ds) auto

lemma c_string_greedy_bits: "c_string (greedy_bits k s @ CHR 0x00 # rest) = greedy_bits k s"
  by (rule c_string_digits) (rule set_greedy_bits)

lemma format_as_binary_greedy:
  assumes "w \<le> 31" "w < length buffer"
  shows "format_as_binary buffer (of_nat (Suc w)) v =
     Some (greedy_bits w (sint v) @ CHR 0x00 # drop (Suc w) buffer)"
proof -
  have e: "(of_nat (Suc w) :: c_int) - 1 = of_nat w" by simp
  have l: "format_loop buffer (of_nat w) 0 v =
     Some (greedy_bits w (sint v) @ drop w buffer)"
    using format_loop_greedy [of 0 w w buffer v] assms by simp
  have "w < length (greedy_bits w (sint v) @ drop w buffer)"
    using assms by (simp add: length_greedy_bits)
  moreover have "w < 2147483648" using assms by simp
  ultimately have st: "buffer_store (greedy_bits w (sint v) @ drop w buffer) (of_nat w) c =
     Some ((greedy_bits w (sint v) @ drop w buffer)[w := c])" for c
    by (rule buffer_store_of_nat)
  have "(greedy_bits w (sint v) @ drop w buffer)[w := c] =
        greedy_bits w (sint v) @ c # drop (Suc w) buffer" for c
    using assms(2) by (simp add: list_update_append length_greedy_bits
        Cons_nth_drop_Suc [symmetric])
  then show ?thesis
    by (simp only: format_as_binary_def Let_def e l option.case st)
qed

lemma format_as_binary_digits:
  assumes "w < 2147483648" "w < length buffer"
  shows "\<exists>ds. format_as_binary buffer (of_nat (Suc w)) v =
            Some (ds @ CHR 0x00 # drop (Suc w) buffer) \<and>
          length ds = w \<and> set ds \<subseteq> {CHR ''0'', CHR ''1''}"
proof -
  have e: "(of_nat (Suc w) :: c_int) - 1 = of_nat w" by simp
  obtain ds where ds: "format_loop buffer (of_nat w) 0 v = Some (ds @ drop w buffer)"
    "length ds = w" "set ds \<subseteq> {CHR ''0'', CHR ''1''}"
    using format_loop_digits [of 0 w w buffer v] assms by auto
  have "w < length (ds @ drop w buffer)" using assms ds(2) by simp
  then have st: "buffer_store (ds @ drop w buffer) (of_nat w) c =
     Some ((ds @ drop w buffer)[w := c])" for c
    using assms(1) by (rule buffer_store_of_nat)
  have up: "(ds @ drop w buffer)[w := c] = ds @ c # drop (Suc w) buffer" for c
    using assms(2) ds(2) by (simp add: list_update_append Cons_nth_drop_Suc [symmetric])
  have "format_as_binary buffer (of_nat (Suc w)) v = Some (ds @ CHR 0x00 # drop (Suc w) buffer)"
    by (simp only: format_as_binary_def Let_def e ds(1) option.case st up)
  then show ?thesis using ds(2,3) by blast
qed

lemma decode_foldl:
  "foldl (\<lambda>acc c. 2 * acc + (if c = CHR ''1'' then 1 else 0)) a ds =
   a * 2 ^ length ds + foldl (\<lambda>acc c. 2 * acc + (if c = CHR ''1'' then 1 else 0)) (0::nat) ds"
proof (induction ds arbitrary: a)
  case Nil
  then show ?case by simp
next
  case (Cons d ds)
  define f :: "nat \<Rightarrow> char \<Rightarrow> nat"
    where "f = (\<lambda>acc c. 2 * acc + (if c = CHR ''1'' then 1 else 0))"
  define b :: nat where "b = (if d = CHR ''1'' then 1 else 0)"
  have ih: "foldl f x ds = x * 2 ^ length ds + foldl f 0 ds" for x
    unfolding f_def by (rule Cons.IH)
  have "foldl f a (d # ds) = foldl f (2 * a + b) ds" by (simp add: f_def b_def)
  also have "\<dots> = (2 * a + b) * 2 ^ length ds + foldl f 0 ds" by (rule ih)
  also have "\<dots> = a * 2 ^ length (d # ds) + (b * 2 ^ length ds + foldl f 0 ds)"
    by (simp add: algebra_simps)
  also have "b * 2 ^ length ds + foldl f 0 ds = foldl f b ds" by (rule ih [symmetric])
  also have "foldl f b ds = foldl f 0 (d # ds)" by (simp add: f_def b_def)
  finally show ?case unfolding f_def .
qed

lemma decode_binary_Nil: "decode_binary [] = 0"
  by (simp add: decode_binary_def)

lemma decode_binary_Cons:
  "decode_binary (d # ds) = (if d = CHR ''1'' then 2 ^ length ds else 0) + decode_binary ds"
proof -
  define f :: "nat \<Rightarrow> char \<Rightarrow> nat"
    where "f = (\<lambda>acc c. 2 * acc + (if c = CHR ''1'' then 1 else 0))"
  have "decode_binary (d # ds) = foldl f (if d = CHR ''1'' then 1 else 0) ds"
    by (simp add: decode_binary_def f_def)
  also have "\<dots> = (if d = CHR ''1'' then 1 else 0) * 2 ^ length ds + foldl f 0 ds"
    unfolding f_def by (rule decode_foldl)
  finally show ?thesis by (simp add: decode_binary_def f_def)
qed

lemma decode_greedy_bits:
  "0 \<le> s \<Longrightarrow> s < 2 ^ k \<Longrightarrow> int (decode_binary (greedy_bits k s)) = s"
  by (induction k arbitrary: s)
    (simp_all add: decode_binary_Nil decode_binary_Cons length_greedy_bits)

lemma greedy_bits_saturated: "2 ^ k \<le> s \<Longrightarrow> greedy_bits k s = replicate k (CHR ''1'')"
proof (induction k arbitrary: s)
  case 0
  then show ?case by simp
next
  case (Suc k)
  then have "2 * 2 ^ k \<le> s" by simp
  moreover have "(0::int) \<le> 2 ^ k" by simp
  ultimately have "2 ^ k \<le> s" "2 ^ k \<le> s - 2 ^ k" by linarith+
  then show ?case using Suc.IH [of "s - 2 ^ k"] by simp
qed

lemma greedy_bits_nonpositive: "s \<le> 0 \<Longrightarrow> greedy_bits k s = replicate k (CHR ''0'')"
proof (induction k)
  case 0
  then show ?case by simp
next
  case (Suc k)
  have "(0::int) < 2 ^ k" by simp
  with Suc.prems have "\<not> 2 ^ k \<le> s" by linarith
  then show ?case using Suc by simp
qed

lemma decode_binary_ones: "decode_binary (replicate k (CHR ''1'')) = 2 ^ k - 1"
  by (induction k) (simp_all add: decode_binary_Nil decode_binary_Cons)

lemma decode_binary_zeros: "decode_binary (replicate k (CHR ''0'')) = 0"
  by (induction k) (simp_all add: decode_binary_Nil decode_binary_Cons)

lemma decode_greedy_bits_min:
  assumes "0 \<le> s"
  shows "int (decode_binary (greedy_bits k s)) = min s (2 ^ k - 1)"
proof (cases "s < 2 ^ k")
  case True
  then show ?thesis using assms by (simp add: decode_greedy_bits)
next
  case False
  then have "greedy_bits k s = replicate k (CHR ''1'')"
    by (intro greedy_bits_saturated) simp
  then show ?thesis using False by (simp add: decode_binary_ones)
qed

lemma sint_word_of_int32:
  "- 2147483648 \<le> x \<Longrightarrow> x < 2147483648 \<Longrightarrow> sint (word_of_int x :: c_int) = x"
proof -
  assume a: "- 2147483648 \<le> x" "x < 2147483648"
  then have "signed_take_bit 31 x = x"
    by (intro signed_take_bit_int_eq_self) simp_all
  then show ?thesis by (simp only: sint_sbintrunc') simp
qed

lemma greedy_bits_all_ones: "greedy_bits k (2 ^ k - 1) = replicate k (CHR ''1'')"
proof (induction k)
  case 0
  then show ?case by simp
next
  case (Suc k)
  have "(1::int) \<le> 2 ^ k" by simp
  then have "(2::int) ^ k \<le> 2 ^ Suc k - 1" by simp
  moreover have "(2::int) ^ Suc k - 1 - 2 ^ k = 2 ^ k - 1" by simp
  ultimately show ?case using Suc.IH by simp
qed

lemma greedy_bits_min: "greedy_bits k (min s (2 ^ k - 1)) = greedy_bits k s"
proof (cases "s < 2 ^ k")
  case True
  then show ?thesis by (simp add: min_def)
next
  case False
  then have "2 ^ k \<le> s" by simp
  then show ?thesis
    by (simp add: min_def greedy_bits_all_ones greedy_bits_saturated)
qed

lemma width_of_large_value:
  assumes "2 ^ w \<le> sint (v::c_int)"
  shows "w \<le> 30"
proof (rule ccontr)
  assume "\<not> w \<le> 30"
  then have "31 \<le> w" by simp
  then have "(2::int) ^ 31 \<le> 2 ^ w" by (intro power_increasing) simp_all
  with assms have "(2::int) ^ 31 \<le> sint v" by linarith
  then show False using sint_range32 [of v] by simp
qed

lemma unat_positive_int:
  assumes "0 <s (w :: c_int)"
  shows "unat w < 2147483648" and "int (unat w) = sint w"
proof -
  have p: "0 < sint w" using assms by (simp add: word_sless_alt)
  have lo: "0 \<le> sint w" using p by simp
  have "sint w < 2147483648" using sint_range32 [of w] by blast
  then have hi: "sint w < 2 ^ 32" by simp
  have "take_bit 32 (sint w) = sint w" using lo hi by (rule take_bit_int_eq_self)
  then have "uint w = sint w" using uint_sint [of w] by simp
  then show "int (unat w) = sint w" by simp
  then show "unat w < 2147483648" using sint_range32 [of w] by linarith
qed

section \<open>The formatting pass on allocated buffers\<close>

lemma format_field:
  assumes "w \<le> 31" and "length buffer = Suc w"
  shows "format_as_binary buffer (of_nat (Suc w)) v = Some (greedy_bits w (sint v) @ [CHR 0x00])"
  using format_as_binary_greedy [of w buffer v] assms by simp

lemma display_time_result:
  assumes "buffers_allocated s"
  shows "display_time style t s =
     Some \<lparr>hour_binary_buffer = greedy_bits 5 (sint (tm_get_hours style t)) @ [CHR 0x00],
           minute_binary_buffer = greedy_bits 6 (sint (tm_min t)) @ [CHR 0x00],
           month_binary_buffer = greedy_bits 4 (sint (tm_get_months t)) @ [CHR 0x00],
           day_binary_buffer = greedy_bits 6 (sint (tm_mday t)) @ [CHR 0x00]\<rparr>"
proof -
  have h: "format_as_binary (hour_binary_buffer s) (of_nat (Suc 5)) v =
      Some (greedy_bits 5 (sint v) @ [CHR 0x00])" for v
    using assms by (intro format_field) (simp_all add: buffers_allocated_def HOUR_BINARY_LENGTH_def)
  have m: "format_as_binary (minute_binary_buffer s) (of_nat (Suc 6)) v =
      Some (greedy_bits 6 (sint v) @ [CHR 0x00])" for v
    using assms by (intro format_field) (simp_all add: buffers_allocated_def MINUTE_BINARY_LENGTH_def)
  have o: "format_as_binary (month_binary_buffer s) (of_nat (Suc 4)) v =
      Some (greedy_bits 4 (sint v) @ [CHR 0x00])" for v
    using assms by (intro format_field) (simp_all add: buffers_allocated_def MONTH_BINARY_LENGTH_def)
  have d: "format_as_binary (day_binary_buffer s) (of_nat (Suc 6)) v =
      Some (greedy_bits 6 (sint v) @ [CHR 0x00])" for v
    using assms by (intro format_field) (simp_all add: buffers_allocated_def DAY_BINARY_LENGTH_def)
  have n: "HOUR_BINARY_LENGTH + 1 = Suc 5" "MINUTE_BINARY_LENGTH + 1 = Suc 6"
    "MONTH_BINARY_LENGTH + 1 = Suc 4" "DAY_BINARY_LENGTH + 1 = Suc 6"
    by (simp_all add: HOUR_BINARY_LENGTH_def MINUTE_BINARY_LENGTH_def
        MONTH_BINARY_LENGTH_def DAY_BINARY_LENGTH_def)
  show ?thesis
    by (simp only: display_time_def n h m o d option.case)
qed

lemma c_string_field: "c_string (greedy_bits k s @ [CHR 0x00]) = greedy_bits k s"
  by (rule c_string_greedy_bits)

lemma c_rem_nonnegative:
  assumes "0 \<le> sint a"
  shows "sint (c_rem a 12) = sint a mod 12"
proof -
  have "sint a smod 12 = sint a mod 12"
    using assms by (simp add: smod_int_alt_def sgn_if)
  moreover have "0 \<le> sint a mod 12" "sint a mod 12 < 12" by simp_all
  ultimately show ?thesis
    unfolding c_rem_def by (simp add: sint_word_of_int32)
qed

lemma tm_get_hours_12h:
  assumes "0 \<le> sint (tm_hour t)"
  shows "sint (tm_get_hours False t) =
     (if sint (tm_hour t) mod 12 = 0 then 12 else sint (tm_hour t) mod 12)"
proof -
  have r: "sint (c_rem (tm_hour t) 12) = sint (tm_hour t) mod 12"
    using assms by (rule c_rem_nonnegative)
  have "(c_rem (tm_hour t) 12 = 0) = (sint (c_rem (tm_hour t) 12) = 0)"
    by (simp only: signed_eq_0_iff)
  then have z: "(c_rem (tm_hour t) 12 = 0) = (sint (tm_hour t) mod 12 = 0)"
    by (simp only: r)
  show ?thesis by (simp add: tm_get_hours_def z r)
qed

lemma tm_get_months_sint:
  assumes "sint (tm_mon t) < 2147483647"
  shows "sint (tm_get_months t) = sint (tm_mon t) + 1"
proof -
  have "tm_mon t <s 2147483647" using assms by (simp add: word_sless_alt)
  then show ?thesis unfolding tm_get_months_def by (rule sint_succ)
qed

section \<open>The binary encoder\<close>

text \<open>
  In the statements below a width \<open>w\<close> is the number of digit positions: the call is
  \<^verbatim>\<open>format_as_binary(buffer, w + 1, value)\<close> on a buffer of \<open>w + 1\<close> bytes, and the
  string it leaves is \<open>c_string\<close> of the buffer.
\<close>

text \<open>
  Claim C1, as amended. For every width \<open>w\<close> with \<open>1 \<le> w \<le> 31\<close> and every value \<open>v\<close>
  with \<open>0 \<le> v < 2 ^ w\<close>, \<^verbatim>\<open>format_as_binary\<close> called with a buffer of length \<open>w + 1\<close>
  leaves a string of exactly \<open>w\<close> characters, each \<open>0\<close> or \<open>1\<close>, which read as a binary
  number, most significant bit first, is \<open>v\<close>.
\<close>

theorem format_as_binary_in_range:
  assumes "1 \<le> w" and "w \<le> 31" and "0 \<le> sint v" and "sint v < 2 ^ w"
    and "length buffer = w + 1"
  shows "\<exists>b. format_as_binary buffer (of_nat (w + 1)) v = Some b \<and>
     length (c_string b) = w \<and>
     set (c_string b) \<subseteq> {CHR ''0'', CHR ''1''} \<and>
     int (decode_binary (c_string b)) = sint v"
proof -
  have "format_as_binary buffer (of_nat (w + 1)) v =
        Some (greedy_bits w (sint v) @ CHR 0x00 # drop (Suc w) buffer)"
    using format_as_binary_greedy [of w buffer v] assms by simp
  then show ?thesis
    using assms(3,4)
    by (simp add: c_string_greedy_bits length_greedy_bits set_greedy_bits decode_greedy_bits)
qed

theorem format_as_binary_in_range_witness:
  "\<exists>b. format_as_binary (replicate 7 (CHR 0x00)) (of_nat (6 + 1)) 59 = Some b \<and>
     length (c_string b) = 6 \<and>
     set (c_string b) \<subseteq> {CHR ''0'', CHR ''1''} \<and>
     int (decode_binary (c_string b)) = sint (59 :: c_int)"
  using format_as_binary_in_range [of 6 59 "replicate 7 (CHR 0x00)"] by simp

text \<open>
  The claim as stated, for every positive width, fails at width 32: \<^verbatim>\<open>power(2, 31)\<close>
  is not representable in \<^verbatim>\<open>int\<close> and wraps to the least \<^verbatim>\<open>int\<close>, which the value 0
  is not below, so the first digit written for 0 is \<open>1\<close>.
\<close>

theorem format_as_binary_width_32_counterexample:
  "format_as_binary (replicate 33 (CHR 0x00)) (of_nat (32 + 1)) 0 =
     Some (CHR ''1'' # replicate 31 (CHR ''0'') @ [CHR 0x00]) \<and>
   c_string (CHR ''1'' # replicate 31 (CHR ''0'') @ [CHR 0x00]) =
     CHR ''1'' # replicate 31 (CHR ''0'') \<and>
   int (decode_binary (CHR ''1'' # replicate 31 (CHR ''0''))) \<noteq> sint (0 :: c_int)"
proof -
  have "format_as_binary (replicate 33 (CHR 0x00)) (of_nat (32 + 1)) 0 =
     Some (CHR ''1'' # replicate 31 (CHR ''0'') @ [CHR 0x00])"
    by code_simp
  moreover have "c_string (CHR ''1'' # replicate 31 (CHR ''0'') @ [CHR 0x00]) =
     CHR ''1'' # replicate 31 (CHR ''0'')"
    using c_string_digits [of "CHR ''1'' # replicate 31 (CHR ''0'')" "[]"] by simp
  moreover have "int (decode_binary (CHR ''1'' # replicate 31 (CHR ''0''))) \<noteq> sint (0 :: c_int)"
    by (simp add: decode_binary_Cons)
  ultimately show ?thesis by blast
qed

text \<open>
  Claim C2, as amended. For every width \<open>w\<close> with \<open>1 \<le> w \<le> 31\<close> and every value
  \<open>v \<ge> 0\<close>, decoding the string that \<^verbatim>\<open>format_as_binary\<close> leaves gives
  \<open>min v (2 ^ w - 1)\<close>, and the output for \<open>v\<close> is the output for \<open>min v (2 ^ w - 1)\<close>:
  a value that does not fit is clamped to the largest value of the width, not reduced
  modulo \<open>2 ^ w\<close>.
\<close>

theorem format_as_binary_clamps:
  assumes "1 \<le> w" and "w \<le> 31" and "0 \<le> sint v" and "length buffer = w + 1"
  shows "\<exists>b. format_as_binary buffer (of_nat (w + 1)) v = Some b \<and>
     int (decode_binary (c_string b)) = min (sint v) (2 ^ w - 1) \<and>
     format_as_binary buffer (of_nat (w + 1)) (word_of_int (min (sint v) (2 ^ w - 1))) = Some b"
proof -
  define m where "m = min (sint v) (2 ^ w - 1)"
  have "0 \<le> m" using assms(3) by (simp add: m_def)
  moreover have "m \<le> sint v" by (simp add: m_def)
  ultimately have s: "sint (word_of_int m :: c_int) = m"
    using sint_range32 [of v] by (intro sint_word_of_int32) linarith+
  have a: "format_as_binary buffer (of_nat (w + 1)) v =
        Some (greedy_bits w (sint v) @ CHR 0x00 # drop (Suc w) buffer)"
    using format_as_binary_greedy [of w buffer v] assms by simp
  have b: "format_as_binary buffer (of_nat (w + 1)) (word_of_int m) =
        Some (greedy_bits w m @ CHR 0x00 # drop (Suc w) buffer)"
    using format_as_binary_greedy [of w buffer "word_of_int m"] assms by (simp add: s)
  have "greedy_bits w m = greedy_bits w (sint v)"
    unfolding m_def by (rule greedy_bits_min)
  then show ?thesis
    using a b assms(3) unfolding m_def [symmetric]
    by (simp add: c_string_greedy_bits decode_greedy_bits_min m_def)
qed

theorem format_as_binary_clamps_witness:
  "\<exists>b. format_as_binary (replicate 2 (CHR 0x00)) (of_nat (1 + 1)) 2 = Some b \<and>
     int (decode_binary (c_string b)) = min (sint (2 :: c_int)) (2 ^ 1 - 1) \<and>
     format_as_binary (replicate 2 (CHR 0x00)) (of_nat (1 + 1))
       (word_of_int (min (sint (2 :: c_int)) (2 ^ 1 - 1))) = Some b"
  using format_as_binary_clamps [of 1 2 "replicate 2 (CHR 0x00)"] by simp

text \<open>
  The claim as stated fails at \<open>v = 2\<close>, \<open>w = 1\<close>: the output for 2 is \<open>1\<close>, the output
  for \<open>2 mod 2 = 0\<close> is \<open>0\<close>.
\<close>

theorem format_as_binary_not_modular_counterexample:
  "format_as_binary (replicate 2 (CHR 0x00)) (of_nat (1 + 1)) 2 = Some [CHR ''1'', CHR 0x00] \<and>
   format_as_binary (replicate 2 (CHR 0x00)) (of_nat (1 + 1)) (word_of_int (2 mod 2 ^ 1)) =
     Some [CHR ''0'', CHR 0x00] \<and>
   c_string [CHR ''1'', CHR 0x00] = [CHR ''1''] \<and>
   int (decode_binary [CHR ''1'']) \<noteq> 2 mod 2 ^ 1"
proof -
  have "format_as_binary (replicate 2 (CHR 0x00)) (of_nat (1 + 1)) 2 = Some [CHR ''1'', CHR 0x00]"
    by code_simp
  moreover have "format_as_binary (replicate 2 (CHR 0x00)) (of_nat (1 + 1)) (word_of_int (2 mod 2 ^ 1)) =
     Some [CHR ''0'', CHR 0x00]"
    by code_simp
  moreover have "c_string [CHR ''1'', CHR 0x00] = [CHR ''1'']"
    by (simp add: c_string_def)
  moreover have "int (decode_binary [CHR ''1'']) \<noteq> 2 mod 2 ^ 1"
    by (simp add: decode_binary_def)
  ultimately show ?thesis by blast
qed

text \<open>
  Claim C6. For every value and every positive width \<open>w\<close> (an \<^verbatim>\<open>int\<close>, as \<^verbatim>\<open>end\<close> is),
  \<^verbatim>\<open>format_as_binary\<close> called with length \<open>w + 1\<close> on a buffer of at least \<open>w + 1\<close>
  bytes makes no store outside the buffer (the result is \<open>Some\<close>), puts the NUL at
  index \<open>w\<close> and none before it, and leaves every byte after index \<open>w\<close> as it was.
\<close>

theorem format_as_binary_stays_in_buffer:
  assumes "0 <s (w :: c_int)" and "unat w + 1 \<le> length buffer"
  shows "\<exists>b. format_as_binary buffer (w + 1) v = Some b \<and>
     length b = length buffer \<and>
     b ! unat w = CHR 0x00 \<and>
     c_string b = take (unat w) b \<and>
     drop (unat w + 1) b = drop (unat w + 1) buffer"
proof -
  define n where "n = unat w"
  have n: "n < 2147483648" unfolding n_def using assms(1) by (rule unat_positive_int)
  have w: "w + 1 = of_nat (Suc n)" by (simp add: n_def)
  have l: "n < length buffer" using assms(2) by (simp add: n_def)
  obtain ds where ds: "format_as_binary buffer (of_nat (Suc n)) v =
            Some (ds @ CHR 0x00 # drop (Suc n) buffer)"
    "length ds = n" "set ds \<subseteq> {CHR ''0'', CHR ''1''}"
    using format_as_binary_digits [OF n l, of v] by blast
  let ?b = "ds @ CHR 0x00 # drop (Suc n) buffer"
  have "length ?b = length buffer" using l ds(2) by simp
  moreover have "?b ! n = CHR 0x00" using ds(2) by (simp add: nth_append)
  moreover have "c_string ?b = take n ?b"
    using c_string_digits [OF ds(3), of "drop (Suc n) buffer"] ds(2) by simp
  moreover have "drop (n + 1) ?b = drop (n + 1) buffer" using ds(2) by simp
  ultimately show ?thesis
    unfolding w n_def [symmetric] using ds(1) by simp
qed

theorem format_as_binary_stays_in_buffer_witness:
  "\<exists>b. format_as_binary (replicate 6 (CHR ''x'') @ ''yz'') (5 + 1) 1000 = Some b \<and>
     length b = length (replicate 6 (CHR ''x'') @ ''yz'') \<and>
     b ! unat (5 :: c_int) = CHR 0x00 \<and>
     c_string b = take (unat (5 :: c_int)) b \<and>
     drop (unat (5 :: c_int) + 1) b = ''yz''"
  using format_as_binary_stays_in_buffer [of 5 "replicate 6 (CHR ''x'') @ ''yz''" 1000]
  by (simp add: word_sless_alt)

text \<open>
  Claim C7, as amended. For every width \<open>w\<close> with \<open>1 \<le> w \<le> 31\<close>, the string written
  for the value 0 is \<open>w\<close> characters \<open>0\<close>.
\<close>

theorem format_as_binary_zero:
  assumes "1 \<le> w" and "w \<le> 31" and "length buffer = w + 1"
  shows "\<exists>b. format_as_binary buffer (of_nat (w + 1)) 0 = Some b \<and>
     c_string b = replicate w (CHR ''0'')"
proof -
  have "format_as_binary buffer (of_nat (w + 1)) 0 =
        Some (greedy_bits w (sint (0::c_int)) @ CHR 0x00 # drop (Suc w) buffer)"
    using format_as_binary_greedy [of w buffer 0] assms by simp
  moreover have "greedy_bits w (sint (0::c_int)) = replicate w (CHR ''0'')"
    by (rule greedy_bits_nonpositive) simp
  ultimately show ?thesis
    using c_string_greedy_bits [of w "sint (0::c_int)" "drop (Suc w) buffer"] by simp
qed

theorem format_as_binary_zero_witness:
  "\<exists>b. format_as_binary (replicate 6 (CHR 0x00)) (of_nat (5 + 1)) 0 = Some b \<and>
     c_string b = replicate 5 (CHR ''0'')"
  using format_as_binary_zero [of 5 "replicate 6 (CHR 0x00)"] by simp

text \<open>
  The claim as stated, for every width \<open>w \<ge> 1\<close>, fails at width 33: \<^verbatim>\<open>power(2, 32)\<close>
  wraps to 0 and \<^verbatim>\<open>power(2, 31)\<close> to the least \<^verbatim>\<open>int\<close>, so the first two digits
  written for 0 are \<open>1\<close>.
\<close>

theorem format_as_binary_zero_width_33_counterexample:
  "format_as_binary (replicate 34 (CHR 0x00)) (of_nat (33 + 1)) 0 =
     Some (CHR ''1'' # CHR ''1'' # replicate 31 (CHR ''0'') @ [CHR 0x00]) \<and>
   c_string (CHR ''1'' # CHR ''1'' # replicate 31 (CHR ''0'') @ [CHR 0x00]) \<noteq>
     replicate 33 (CHR ''0'')"
proof -
  have "format_as_binary (replicate 34 (CHR 0x00)) (of_nat (33 + 1)) 0 =
     Some (CHR ''1'' # CHR ''1'' # replicate 31 (CHR ''0'') @ [CHR 0x00])"
    by code_simp
  moreover have "hd (c_string (CHR ''1'' # CHR ''1'' # replicate 31 (CHR ''0'') @ [CHR 0x00])) =
     CHR ''1''"
    by (simp add: c_string_def)
  moreover have "hd (replicate 33 (CHR ''0'')) = CHR ''0''" by simp
  ultimately show ?thesis by auto
qed

text \<open>
  Claim C9. For every width \<open>w \<ge> 1\<close> and every value \<open>v \<ge> 2 ^ w\<close>, the buffer is
  filled with \<open>w\<close> characters \<open>1\<close> and the NUL; the string decodes to \<open>2 ^ w - 1\<close>.
  (An \<^verbatim>\<open>int\<close> \<open>v \<ge> 2 ^ w\<close> exists only for \<open>w \<le> 30\<close>.)
\<close>

theorem format_as_binary_saturates:
  assumes "1 \<le> w" and "2 ^ w \<le> sint v" and "length buffer = w + 1"
  shows "format_as_binary buffer (of_nat (w + 1)) v =
     Some (replicate w (CHR ''1'') @ [CHR 0x00]) \<and>
     c_string (replicate w (CHR ''1'') @ [CHR 0x00]) = replicate w (CHR ''1'') \<and>
     decode_binary (replicate w (CHR ''1'')) = 2 ^ w - 1"
proof -
  have w: "w \<le> 31" using width_of_large_value [OF assms(2)] by simp
  have g: "greedy_bits w (sint v) = replicate w (CHR ''1'')"
    using assms(2) by (rule greedy_bits_saturated)
  have "format_as_binary buffer (of_nat (w + 1)) v =
        Some (greedy_bits w (sint v) @ CHR 0x00 # drop (Suc w) buffer)"
    using format_as_binary_greedy [of w buffer v] w assms(3) by simp
  moreover have "drop (Suc w) buffer = []" using assms(3) by simp
  ultimately show ?thesis
    using c_string_greedy_bits [of w "sint v" "[]"] by (simp add: g decode_binary_ones)
qed

theorem format_as_binary_saturates_witness:
  "format_as_binary (replicate 6 (CHR 0x00)) (of_nat (5 + 1)) 32 =
     Some (replicate 5 (CHR ''1'') @ [CHR 0x00]) \<and>
   c_string (replicate 5 (CHR ''1'') @ [CHR 0x00]) = replicate 5 (CHR ''1'') \<and>
   decode_binary (replicate 5 (CHR ''1'')) = 2 ^ 5 - 1"
  using format_as_binary_saturates [of 5 32 "replicate 6 (CHR 0x00)"] by simp

text \<open>
  Claim C10, as amended. For every width \<open>w\<close> with \<open>1 \<le> w \<le> 31\<close> and every negative
  value, the buffer is filled with \<open>w\<close> characters \<open>0\<close> and the NUL.
\<close>

theorem format_as_binary_negative:
  assumes "1 \<le> w" and "w \<le> 31" and "sint v < 0" and "length buffer = w + 1"
  shows "format_as_binary buffer (of_nat (w + 1)) v =
     Some (replicate w (CHR ''0'') @ [CHR 0x00]) \<and>
     c_string (replicate w (CHR ''0'') @ [CHR 0x00]) = replicate w (CHR ''0'')"
proof -
  have g: "greedy_bits w (sint v) = replicate w (CHR ''0'')"
    using assms(3) by (intro greedy_bits_nonpositive) simp
  have "format_as_binary buffer (of_nat (w + 1)) v =
        Some (greedy_bits w (sint v) @ CHR 0x00 # drop (Suc w) buffer)"
    using format_as_binary_greedy [of w buffer v] assms by simp
  moreover have "drop (Suc w) buffer = []" using assms(4) by simp
  ultimately show ?thesis
    using c_string_greedy_bits [of w "sint v" "[]"] by (simp add: g)
qed

theorem format_as_binary_negative_witness:
  "format_as_binary (replicate 6 (CHR 0x00)) (of_nat (5 + 1)) (- 1) =
     Some (replicate 5 (CHR ''0'') @ [CHR 0x00]) \<and>
   c_string (replicate 5 (CHR ''0'') @ [CHR 0x00]) = replicate 5 (CHR ''0'')"
  using format_as_binary_negative [of 5 "- 1" "replicate 6 (CHR 0x00)"] by simp

text \<open>
  The claim as stated, for every width \<open>w \<ge> 1\<close>, fails at width 32 and value \<open>-1\<close>:
  \<^verbatim>\<open>power(2, 31)\<close> wraps to the least \<^verbatim>\<open>int\<close>, which \<open>-1\<close> is not below; the store
  becomes the greatest \<^verbatim>\<open>int\<close> and every digit is \<open>1\<close>.
\<close>

theorem format_as_binary_negative_width_32_counterexample:
  "format_as_binary (replicate 33 (CHR 0x00)) (of_nat (32 + 1)) (- 1) =
     Some (replicate 32 (CHR ''1'') @ [CHR 0x00]) \<and>
   c_string (replicate 32 (CHR ''1'') @ [CHR 0x00]) \<noteq> replicate 32 (CHR ''0'')"
proof -
  have "format_as_binary (replicate 33 (CHR 0x00)) (of_nat (32 + 1)) (- 1) =
     Some (replicate 32 (CHR ''1'') @ [CHR 0x00])"
    by code_simp
  moreover have "c_string (replicate 32 (CHR ''1'') @ [CHR 0x00]) = replicate 32 (CHR ''1'')"
    using c_string_digits [of "replicate 32 (CHR ''1'')" "[]"] by simp
  moreover have "replicate 32 (CHR ''1'') \<noteq> replicate 32 (CHR ''0'')"
    by simp
  ultimately show ?thesis by simp
qed

section \<open>The time formatter\<close>

text \<open>
  Claim C3. Under the 24-hour style the displayed hour is \<^verbatim>\<open>tm_hour\<close> unchanged; under
  the 12-hour style, with \<open>h = tm_hour mod 12\<close>, it is 12 when \<open>h = 0\<close> and \<open>h\<close>
  otherwise (for every hour \<open>\<ge> 0\<close>); and for every hour from 0 to 23 the hour buffer
  after \<^verbatim>\<open>display_time\<close> holds 5 digits that decode to the displayed hour.
\<close>

theorem hour_derivation:
  "tm_get_hours True t = tm_hour t \<and>
   (0 \<le> sint (tm_hour t) \<longrightarrow>
      sint (tm_get_hours False t) =
        (if sint (tm_hour t) mod 12 = 0 then 12 else sint (tm_hour t) mod 12)) \<and>
   (0 \<le> sint (tm_hour t) \<and> sint (tm_hour t) \<le> 23 \<and> buffers_allocated s \<longrightarrow>
      (\<exists>r. display_time style t s = Some r \<and>
           length (c_string (hour_binary_buffer r)) = 5 \<and>
           int (decode_binary (c_string (hour_binary_buffer r))) =
             sint (tm_get_hours style t)))"
proof (intro conjI impI)
  show "tm_get_hours True t = tm_hour t" by (simp add: tm_get_hours_def)
next
  assume "0 \<le> sint (tm_hour t)"
  then show "sint (tm_get_hours False t) =
        (if sint (tm_hour t) mod 12 = 0 then 12 else sint (tm_hour t) mod 12)"
    by (rule tm_get_hours_12h)
next
  assume a: "0 \<le> sint (tm_hour t) \<and> sint (tm_hour t) \<le> 23 \<and> buffers_allocated s"
  have lo: "0 \<le> sint (tm_get_hours style t)"
  proof (cases style)
    case True
    then show ?thesis using a by (simp add: tm_get_hours_def)
  next
    case False
    then show ?thesis using a by (simp add: tm_get_hours_12h)
  qed
  have hi: "sint (tm_get_hours style t) < 2 ^ 5"
  proof (cases style)
    case True
    then show ?thesis using a by (simp add: tm_get_hours_def)
  next
    case False
    have "sint (tm_hour t) mod 12 < 12" by (rule pos_mod_bound) simp
    then have "sint (tm_hour t) mod 12 < 32" by linarith
    then show ?thesis using False a by (simp add: tm_get_hours_12h)
  qed
  show "\<exists>r. display_time style t s = Some r \<and>
           length (c_string (hour_binary_buffer r)) = 5 \<and>
           int (decode_binary (c_string (hour_binary_buffer r))) =
             sint (tm_get_hours style t)"
    using a lo hi
    by (simp add: display_time_result c_string_field length_greedy_bits decode_greedy_bits)
qed

theorem hour_derivation_witness:
  "sint (tm_get_hours False \<lparr>tm_min = 5, tm_hour = 0, tm_mday = 1, tm_mon = 0\<rparr>) = 12 \<and>
   sint (tm_get_hours False \<lparr>tm_min = 5, tm_hour = 12, tm_mday = 1, tm_mon = 0\<rparr>) = 12 \<and>
   sint (tm_get_hours False \<lparr>tm_min = 5, tm_hour = 13, tm_mday = 1, tm_mon = 0\<rparr>) = 1 \<and>
   tm_get_hours True \<lparr>tm_min = 5, tm_hour = 23, tm_mday = 1, tm_mon = 0\<rparr> = 23 \<and>
   (\<exists>r. display_time False \<lparr>tm_min = 5, tm_hour = 0, tm_mday = 1, tm_mon = 0\<rparr>
          initial_buffers = Some r \<and>
        int (decode_binary (c_string (hour_binary_buffer r))) = 12) \<and>
   (\<exists>r. display_time False \<lparr>tm_min = 5, tm_hour = 12, tm_mday = 1, tm_mon = 0\<rparr>
          initial_buffers = Some r \<and>
        int (decode_binary (c_string (hour_binary_buffer r))) = 12) \<and>
   (\<exists>r. display_time False \<lparr>tm_min = 5, tm_hour = 13, tm_mday = 1, tm_mon = 0\<rparr>
          initial_buffers = Some r \<and>
        int (decode_binary (c_string (hour_binary_buffer r))) = 1) \<and>
   (\<exists>r. display_time True \<lparr>tm_min = 5, tm_hour = 23, tm_mday = 1, tm_mon = 0\<rparr>
          initial_buffers = Some r \<and>
        int (decode_binary (c_string (hour_binary_buffer r))) = 23)"
proof -
  have i: "buffers_allocated initial_buffers"
    by (simp add: buffers_allocated_def initial_buffers_def)
  note h0 = hour_derivation [of "\<lparr>tm_min = 5, tm_hour = 0, tm_mday = 1, tm_mon = 0\<rparr>"
        initial_buffers False]
  note h12 = hour_derivation [of "\<lparr>tm_min = 5, tm_hour = 12, tm_mday = 1, tm_mon = 0\<rparr>"
        initial_buffers False]
  note h13 = hour_derivation [of "\<lparr>tm_min = 5, tm_hour = 13, tm_mday = 1, tm_mon = 0\<rparr>"
        initial_buffers False]
  note h23 = hour_derivation [of "\<lparr>tm_min = 5, tm_hour = 23, tm_mday = 1, tm_mon = 0\<rparr>"
        initial_buffers True]
  have a0: "sint (tm_get_hours False \<lparr>tm_min = 5, tm_hour = 0, tm_mday = 1, tm_mon = 0\<rparr>) = 12"
    using h0 by simp
  have a12: "sint (tm_get_hours False \<lparr>tm_min = 5, tm_hour = 12, tm_mday = 1, tm_mon = 0\<rparr>) = 12"
    using h12 by simp
  have a13: "sint (tm_get_hours False \<lparr>tm_min = 5, tm_hour = 13, tm_mday = 1, tm_mon = 0\<rparr>) = 1"
    using h13 by simp
  have a23: "tm_get_hours True \<lparr>tm_min = 5, tm_hour = 23, tm_mday = 1, tm_mon = 0\<rparr> = 23"
    using h23 by simp
  have b0: "\<exists>r. display_time False \<lparr>tm_min = 5, tm_hour = 0, tm_mday = 1, tm_mon = 0\<rparr>
          initial_buffers = Some r \<and>
        int (decode_binary (c_string (hour_binary_buffer r))) = 12"
    using h0 i by (auto simp add: a0)
  have b12: "\<exists>r. display_time False \<lparr>tm_min = 5, tm_hour = 12, tm_mday = 1, tm_mon = 0\<rparr>
          initial_buffers = Some r \<and>
        int (decode_binary (c_string (hour_binary_buffer r))) = 12"
    using h12 i by (auto simp add: a12)
  have b13: "\<exists>r. display_time False \<lparr>tm_min = 5, tm_hour = 13, tm_mday = 1, tm_mon = 0\<rparr>
          initial_buffers = Some r \<and>
        int (decode_binary (c_string (hour_binary_buffer r))) = 1"
    using h13 i by (auto simp add: a13)
  have b23: "\<exists>r. display_time True \<lparr>tm_min = 5, tm_hour = 23, tm_mday = 1, tm_mon = 0\<rparr>
          initial_buffers = Some r \<and>
        int (decode_binary (c_string (hour_binary_buffer r))) = 23"
    using h23 i by (auto simp add: a23)
  show ?thesis
    using a0 a12 a13 a23 b0 b12 b13 b23 by blast
qed

text \<open>
  Claim C4. The displayed month is \<^verbatim>\<open>tm_mon + 1\<close>; for every month from 0 to 11 and
  either clock style the month buffer after \<^verbatim>\<open>display_time\<close> holds 4 digits that
  decode to \<^verbatim>\<open>tm_mon + 1\<close>: month 0 gives 1 and month 11 gives 12.
\<close>

theorem month_derivation:
  "(sint (tm_mon t) < 2147483647 \<longrightarrow> sint (tm_get_months t) = sint (tm_mon t) + 1) \<and>
   (0 \<le> sint (tm_mon t) \<and> sint (tm_mon t) \<le> 11 \<and> buffers_allocated s \<longrightarrow>
      (\<exists>r. display_time style t s = Some r \<and>
           length (c_string (month_binary_buffer r)) = 4 \<and>
           int (decode_binary (c_string (month_binary_buffer r))) = sint (tm_mon t) + 1))"
proof (intro conjI impI)
  assume "sint (tm_mon t) < 2147483647"
  then show "sint (tm_get_months t) = sint (tm_mon t) + 1" by (rule tm_get_months_sint)
next
  assume a: "0 \<le> sint (tm_mon t) \<and> sint (tm_mon t) \<le> 11 \<and> buffers_allocated s"
  then have m: "sint (tm_get_months t) = sint (tm_mon t) + 1"
    by (intro tm_get_months_sint) simp
  show "\<exists>r. display_time style t s = Some r \<and>
           length (c_string (month_binary_buffer r)) = 4 \<and>
           int (decode_binary (c_string (month_binary_buffer r))) = sint (tm_mon t) + 1"
    using a
    by (simp add: display_time_result c_string_field length_greedy_bits decode_greedy_bits m)
qed

theorem month_derivation_witness:
  "sint (tm_get_months \<lparr>tm_min = 5, tm_hour = 0, tm_mday = 1, tm_mon = 0\<rparr>) = 1 \<and>
   sint (tm_get_months \<lparr>tm_min = 59, tm_hour = 23, tm_mday = 31, tm_mon = 11\<rparr>) = 12 \<and>
   (\<exists>r. display_time False \<lparr>tm_min = 5, tm_hour = 0, tm_mday = 1, tm_mon = 0\<rparr>
          initial_buffers = Some r \<and>
        int (decode_binary (c_string (month_binary_buffer r))) = 1) \<and>
   (\<exists>r. display_time True \<lparr>tm_min = 59, tm_hour = 23, tm_mday = 31, tm_mon = 11\<rparr>
          initial_buffers = Some r \<and>
        int (decode_binary (c_string (month_binary_buffer r))) = 12)"
proof -
  have i: "buffers_allocated initial_buffers"
    by (simp add: buffers_allocated_def initial_buffers_def)
  note m0 = month_derivation [of "\<lparr>tm_min = 5, tm_hour = 0, tm_mday = 1, tm_mon = 0\<rparr>"
        initial_buffers False]
  note m11 = month_derivation [of "\<lparr>tm_min = 59, tm_hour = 23, tm_mday = 31, tm_mon = 11\<rparr>"
        initial_buffers True]
  show ?thesis using m0 m11 i by auto
qed

text \<open>
  Claim C5. The field widths are 5, 6, 4 and 6 bits for hour, minute, month and day;
  the minute and day buffers are what \<^verbatim>\<open>format_as_binary\<close> writes for \<^verbatim>\<open>tm_min\<close> and
  \<^verbatim>\<open>tm_mday\<close> themselves; each field holds exactly its width in digits; and for
  values in the calendar ranges the four fields decode to the hour (24-hour style),
  the minute, the month plus one and the day, so that the maximal input
  23:59 on day 31 of month 11 decodes to 23, 59, 12 and 31.
\<close>

theorem field_widths_and_values:
  "HOUR_BINARY_LENGTH = 5 \<and> MINUTE_BINARY_LENGTH = 6 \<and>
   MONTH_BINARY_LENGTH = 4 \<and> DAY_BINARY_LENGTH = 6 \<and>
   (buffers_allocated s \<longrightarrow>
      (\<exists>r. display_time style t s = Some r \<and>
           format_as_binary (minute_binary_buffer s) (of_nat (MINUTE_BINARY_LENGTH + 1)) (tm_min t) =
             Some (minute_binary_buffer r) \<and>
           format_as_binary (day_binary_buffer s) (of_nat (DAY_BINARY_LENGTH + 1)) (tm_mday t) =
             Some (day_binary_buffer r) \<and>
           length (c_string (hour_binary_buffer r)) = 5 \<and>
           length (c_string (minute_binary_buffer r)) = 6 \<and>
           length (c_string (month_binary_buffer r)) = 4 \<and>
           length (c_string (day_binary_buffer r)) = 6 \<and>
           (style \<and> 0 \<le> sint (tm_hour t) \<and> sint (tm_hour t) \<le> 23 \<longrightarrow>
              int (decode_binary (c_string (hour_binary_buffer r))) = sint (tm_hour t)) \<and>
           (0 \<le> sint (tm_min t) \<and> sint (tm_min t) \<le> 59 \<longrightarrow>
              int (decode_binary (c_string (minute_binary_buffer r))) = sint (tm_min t)) \<and>
           (0 \<le> sint (tm_mon t) \<and> sint (tm_mon t) \<le> 11 \<longrightarrow>
              int (decode_binary (c_string (month_binary_buffer r))) = sint (tm_mon t) + 1) \<and>
           (1 \<le> sint (tm_mday t) \<and> sint (tm_mday t) \<le> 31 \<longrightarrow>
              int (decode_binary (c_string (day_binary_buffer r))) = sint (tm_mday t))))"
proof (intro conjI impI)
  assume a: "buffers_allocated s"
  let ?r = "\<lparr>hour_binary_buffer = greedy_bits 5 (sint (tm_get_hours style t)) @ [CHR 0x00],
           minute_binary_buffer = greedy_bits 6 (sint (tm_min t)) @ [CHR 0x00],
           month_binary_buffer = greedy_bits 4 (sint (tm_get_months t)) @ [CHR 0x00],
           day_binary_buffer = greedy_bits 6 (sint (tm_mday t)) @ [CHR 0x00]\<rparr>"
  have r: "display_time style t s = Some ?r" using a by (rule display_time_result)
  have mi: "format_as_binary (minute_binary_buffer s) (of_nat (MINUTE_BINARY_LENGTH + 1)) (tm_min t) =
             Some (minute_binary_buffer ?r)"
    using a format_field [of 6 "minute_binary_buffer s" "tm_min t"]
    by (simp add: buffers_allocated_def MINUTE_BINARY_LENGTH_def)
  have da: "format_as_binary (day_binary_buffer s) (of_nat (DAY_BINARY_LENGTH + 1)) (tm_mday t) =
             Some (day_binary_buffer ?r)"
    using a format_field [of 6 "day_binary_buffer s" "tm_mday t"]
    by (simp add: buffers_allocated_def DAY_BINARY_LENGTH_def)
  have h: "int (decode_binary (c_string (hour_binary_buffer ?r))) = sint (tm_hour t)"
    if "style \<and> 0 \<le> sint (tm_hour t) \<and> sint (tm_hour t) \<le> 23"
    using that by (simp add: c_string_field decode_greedy_bits tm_get_hours_def)
  have m: "int (decode_binary (c_string (minute_binary_buffer ?r))) = sint (tm_min t)"
    if "0 \<le> sint (tm_min t) \<and> sint (tm_min t) \<le> 59"
    using that by (simp add: c_string_field decode_greedy_bits)
  have o: "int (decode_binary (c_string (month_binary_buffer ?r))) = sint (tm_mon t) + 1"
    if "0 \<le> sint (tm_mon t) \<and> sint (tm_mon t) \<le> 11"
    using that by (simp add: c_string_field decode_greedy_bits tm_get_months_sint)
  have d: "int (decode_binary (c_string (day_binary_buffer ?r))) = sint (tm_mday t)"
    if "1 \<le> sint (tm_mday t) \<and> sint (tm_mday t) \<le> 31"
    using that by (simp add: c_string_field decode_greedy_bits)
  have l: "length (c_string (hour_binary_buffer ?r)) = 5"
    "length (c_string (minute_binary_buffer ?r)) = 6"
    "length (c_string (month_binary_buffer ?r)) = 4"
    "length (c_string (day_binary_buffer ?r)) = 6"
    by (simp_all add: c_string_field length_greedy_bits)
  show "\<exists>r. display_time style t s = Some r \<and>
           format_as_binary (minute_binary_buffer s) (of_nat (MINUTE_BINARY_LENGTH + 1)) (tm_min t) =
             Some (minute_binary_buffer r) \<and>
           format_as_binary (day_binary_buffer s) (of_nat (DAY_BINARY_LENGTH + 1)) (tm_mday t) =
             Some (day_binary_buffer r) \<and>
           length (c_string (hour_binary_buffer r)) = 5 \<and>
           length (c_string (minute_binary_buffer r)) = 6 \<and>
           length (c_string (month_binary_buffer r)) = 4 \<and>
           length (c_string (day_binary_buffer r)) = 6 \<and>
           (style \<and> 0 \<le> sint (tm_hour t) \<and> sint (tm_hour t) \<le> 23 \<longrightarrow>
              int (decode_binary (c_string (hour_binary_buffer r))) = sint (tm_hour t)) \<and>
           (0 \<le> sint (tm_min t) \<and> sint (tm_min t) \<le> 59 \<longrightarrow>
              int (decode_binary (c_string (minute_binary_buffer r))) = sint (tm_min t)) \<and>
           (0 \<le> sint (tm_mon t) \<and> sint (tm_mon t) \<le> 11 \<longrightarrow>
              int (decode_binary (c_string (month_binary_buffer r))) = sint (tm_mon t) + 1) \<and>
           (1 \<le> sint (tm_mday t) \<and> sint (tm_mday t) \<le> 31 \<longrightarrow>
              int (decode_binary (c_string (day_binary_buffer r))) = sint (tm_mday t))"
    using r mi da l h m o d by blast
qed (simp_all add: HOUR_BINARY_LENGTH_def MINUTE_BINARY_LENGTH_def
        MONTH_BINARY_LENGTH_def DAY_BINARY_LENGTH_def)

theorem field_widths_and_values_witness:
  "\<exists>r. display_time True \<lparr>tm_min = 59, tm_hour = 23, tm_mday = 31, tm_mon = 11\<rparr>
         initial_buffers = Some r \<and>
       length (c_string (hour_binary_buffer r)) = 5 \<and>
       length (c_string (minute_binary_buffer r)) = 6 \<and>
       length (c_string (month_binary_buffer r)) = 4 \<and>
       length (c_string (day_binary_buffer r)) = 6 \<and>
       int (decode_binary (c_string (hour_binary_buffer r))) = 23 \<and>
       int (decode_binary (c_string (minute_binary_buffer r))) = 59 \<and>
       int (decode_binary (c_string (month_binary_buffer r))) = 12 \<and>
       int (decode_binary (c_string (day_binary_buffer r))) = 31"
proof -
  have i: "buffers_allocated initial_buffers"
    by (simp add: buffers_allocated_def initial_buffers_def)
  show ?thesis
    using field_widths_and_values
      [of initial_buffers True "\<lparr>tm_min = 59, tm_hour = 23, tm_mday = 31, tm_mon = 11\<rparr>"] i
    by auto
qed

text \<open>
  Claim C8. The formatting pass depends on the time and the clock style only: from
  any two states of the allocated buffers it succeeds with the same four buffer
  contents, and run again on its own result it leaves every buffer as it is.
\<close>

theorem display_time_deterministic:
  assumes "buffers_allocated s" and "buffers_allocated s'"
  shows "\<exists>r. display_time style t s = Some r \<and> display_time style t s' = Some r \<and>
     buffers_allocated r \<and> display_time style t r = Some r"
proof -
  let ?r = "\<lparr>hour_binary_buffer = greedy_bits 5 (sint (tm_get_hours style t)) @ [CHR 0x00],
           minute_binary_buffer = greedy_bits 6 (sint (tm_min t)) @ [CHR 0x00],
           month_binary_buffer = greedy_bits 4 (sint (tm_get_months t)) @ [CHR 0x00],
           day_binary_buffer = greedy_bits 6 (sint (tm_mday t)) @ [CHR 0x00]\<rparr>"
  have a: "buffers_allocated ?r"
    by (simp add: buffers_allocated_def length_greedy_bits HOUR_BINARY_LENGTH_def
        MINUTE_BINARY_LENGTH_def MONTH_BINARY_LENGTH_def DAY_BINARY_LENGTH_def)
  have "display_time style t s = Some ?r" using assms(1) by (rule display_time_result)
  moreover have "display_time style t s' = Some ?r" using assms(2) by (rule display_time_result)
  moreover have "display_time style t ?r = Some ?r" using a by (rule display_time_result)
  ultimately show ?thesis using a by blast
qed

theorem display_time_deterministic_witness:
  "\<exists>r. display_time False \<lparr>tm_min = 5, tm_hour = 0, tm_mday = 1, tm_mon = 0\<rparr>
         initial_buffers = Some r \<and>
       display_time False \<lparr>tm_min = 5, tm_hour = 0, tm_mday = 1, tm_mon = 0\<rparr>
         \<lparr>hour_binary_buffer = ''10111'' @ [CHR 0x00],
          minute_binary_buffer = ''111011'' @ [CHR 0x00],
          month_binary_buffer = ''1100'' @ [CHR 0x00],
          day_binary_buffer = ''011111'' @ [CHR 0x00]\<rparr> = Some r \<and>
       buffers_allocated r \<and>
       display_time False \<lparr>tm_min = 5, tm_hour = 0, tm_mday = 1, tm_mon = 0\<rparr> r = Some r"
proof -
  have i: "buffers_allocated initial_buffers"
    by (simp add: buffers_allocated_def initial_buffers_def)
  have j: "buffers_allocated
         \<lparr>hour_binary_buffer = ''10111'' @ [CHR 0x00],
          minute_binary_buffer = ''111011'' @ [CHR 0x00],
          month_binary_buffer = ''1100'' @ [CHR 0x00],
          day_binary_buffer = ''011111'' @ [CHR 0x00]\<rparr>"
    by (simp add: buffers_allocated_def HOUR_BINARY_LENGTH_def
        MINUTE_BINARY_LENGTH_def MONTH_BINARY_LENGTH_def DAY_BINARY_LENGTH_def)
  show ?thesis using display_time_deterministic [OF i j] by blast
qed

end
